theory Spec2Isabelle
  imports Complex_Main "HOL-Library.Multiset" "HOL-Library.AList"
begin

section \<open>The LPC formant pipeline of acousticsim (representations/formants.py)\<close>

text \<open>
  A shallow embedding of \<^verbatim>\<open>levinson_1d\<close>, \<^verbatim>\<open>_acorr_last_axis\<close>, \<^verbatim>\<open>acorr_lpc\<close>,
  \<^verbatim>\<open>lpc\<close>, \<^verbatim>\<open>Formants\<close> and \<^verbatim>\<open>LpcFormants\<close>.

  Numbers. A numpy \<^verbatim>\<open>float64\<close> is modelled by a \<^typ>\<open>real\<close> and a \<^verbatim>\<open>complex128\<close> by a
  \<^typ>\<open>complex\<close>: the arithmetic is exact, there is no rounding, no NaN and no infinity.
  Where numpy divides a float by zero it returns an infinity or a NaN and goes on; the
  model goes on with HOL's \<open>x / 0 = 0\<close>, and nothing below depends on the value of such a
  quotient. Python's \<^verbatim>\<open>int\<close> is \<^typ>\<open>int\<close>, and \<^verbatim>\<open>/\<close> is the true division of Python 3.
  A one-dimensional array is a list. Every \<^verbatim>\<open>raise\<close> is a value \<open>Inl e\<close> of the result
  type \<open>error + 'a\<close>.

  Library functions (numpy, scipy) are not part of the repository; each one is given by
  the mathematical definition its documentation states.
\<close>

subsection \<open>Errors\<close>

datatype error = ValueError string | StopIteration | ZeroDivisionError | KeyError

subsection \<open>Python and numpy primitives\<close>

text \<open>\<^verbatim>\<open>int(x)\<close> of a float truncates towards zero.\<close>

definition py_int :: "real \<Rightarrow> int" where
  "py_int x = (if 0 \<le> x then \<lfloor>x\<rfloor> else \<lceil>x\<rceil>)"

text \<open>A slice \<^verbatim>\<open>xs[lo:hi]\<close>: a negative bound counts from the end, and both bounds are
  clipped to the list.\<close>

definition slice_bound :: "nat \<Rightarrow> int \<Rightarrow> nat" where
  "slice_bound n i = (if i < 0 then nat (max 0 (int n + i)) else min n (nat i))"

definition py_slice :: "'a list \<Rightarrow> int \<Rightarrow> int \<Rightarrow> 'a list" where
  "py_slice xs lo hi =
     (let a = slice_bound (length xs) lo; b = slice_bound (length xs) hi
      in take (b - a) (drop a xs))"

text \<open>\<^verbatim>\<open>numpy.arange(start, stop, step)\<close> on integers has
  \<open>\<lceil>(stop - start) / step\<rceil>\<close> entries (none when that is negative) and raises on a
  zero step.\<close>

definition arange :: "int \<Rightarrow> int \<Rightarrow> int \<Rightarrow> error + int list" where
  "arange start stop step =
     (if step = 0 then Inl ZeroDivisionError
      else Inr (map (\<lambda>i. start + int i * step) [0..<nat (- ((start - stop) div step))]))"

text \<open>The product \<^verbatim>\<open>X * window\<close> of two one-dimensional arrays: elementwise when the
  lengths agree, broadcast when one of them has length 1, a \<^verbatim>\<open>ValueError\<close> otherwise.\<close>

definition np_multiply :: "real list \<Rightarrow> real list \<Rightarrow> error + real list" where
  "np_multiply xs ys =
     (if length xs = length ys then Inr (map2 (*) xs ys)
      else if length xs = 1 then Inr (map (\<lambda>y. hd xs * y) ys)
      else if length ys = 1 then Inr (map (\<lambda>x. x * hd ys) xs)
      else Inl (ValueError ''operands could not be broadcast together''))"

text \<open>\<^verbatim>\<open>numpy.empty(n)\<close> returns \<open>n\<close> cells of uninitialised memory: whatever the
  function \<open>u\<close> holds.\<close>

definition np_empty :: "(nat \<Rightarrow> complex) \<Rightarrow> nat \<Rightarrow> complex list" where
  "np_empty u n = map u [0..<n]"

text \<open>\<^verbatim>\<open>numpy.arctan2(y, x)\<close>: the angle of the point \<open>(x, y)\<close> in \<open>(-\<pi>, \<pi>]\<close>.\<close>

definition arctan2 :: "real \<Rightarrow> real \<Rightarrow> real" where
  "arctan2 y x =
     (if 0 < x then arctan (y / x)
      else if x < 0 \<and> 0 \<le> y then arctan (y / x) + pi
      else if x < 0 then arctan (y / x) - pi
      else if 0 < y then pi / 2
      else if y < 0 then - pi / 2
      else 0)"

text \<open>\<^verbatim>\<open>numpy.argsort\<close>: the indices that sort the array. numpy does not fix the order of
  equal keys; the model keeps them in index order.\<close>

definition argsort :: "real list \<Rightarrow> nat list" where
  "argsort xs = sort_key (\<lambda>i. xs ! i) [0..<length xs]"

text \<open>\<^verbatim>\<open>scipy.fftpack.fft(x, n)\<close>: the input is cut or zero-padded to \<open>n\<close> points, then
  \<open>y[k] = \<Sum>j<n. x[j] exp(-2\<pi>i jk/n)\<close>; \<^verbatim>\<open>ifft\<close> is the inverse transform
  \<open>x[m] = (1/n) \<Sum>k<n. y[k] exp(2\<pi>i km/n)\<close>.\<close>

definition fft :: "complex list \<Rightarrow> nat \<Rightarrow> complex list" where
  "fft x n =
     (let y = take n x @ replicate (n - length x) 0
      in map (\<lambda>k. \<Sum>j<n. y ! j * cis (- (2 * pi * real j * real k / real n))) [0..<n])"

definition ifft :: "complex list \<Rightarrow> complex list" where
  "ifft y =
     (let n = length y
      in map (\<lambda>m. (\<Sum>k<n. y ! k * cis (2 * pi * real k * real m / real n)) / of_nat n) [0..<n])"

text \<open>\<^verbatim>\<open>scipy.signal.gaussian(M, std)\<close> and \<^verbatim>\<open>numpy.hanning(M)\<close>: empty for \<open>M < 1\<close>, the
  single value 1 for \<open>M = 1\<close>.\<close>

definition gaussian :: "int \<Rightarrow> real \<Rightarrow> real list" where
  "gaussian M std =
     (if M < 1 then [] else if M = 1 then [1]
      else map (\<lambda>n. exp (- ((real n - (real_of_int M - 1) / 2)\<^sup>2) / (2 * std * std)))
             [0..<nat M])"

definition hanning :: "int \<Rightarrow> real list" where
  "hanning M =
     (if M < 1 then [] else if M = 1 then [1]
      else map (\<lambda>n. 1 / 2 - cos (2 * pi * real n / (real_of_int M - 1)) / 2) [0..<nat M])"

text \<open>Modelled from the spec: \<^verbatim>\<open>nextpow2\<close> of \<^verbatim>\<open>acousticsim.representations.helper\<close>,
  which is not among the sources. The spec has the frame padded to "the next power-of-two
  length \<open>\<ge> 2 * maxlag - 1\<close>": \<open>nextpow2 x\<close> is the least exponent \<open>p\<close> with \<open>x \<le> 2 ^ p\<close>.\<close>

fun nextpow2_nat :: "nat \<Rightarrow> nat" where
  "nextpow2_nat n = (if n \<le> 1 then 0 else Suc (nextpow2_nat ((n + 1) div 2)))"

definition nextpow2 :: "int \<Rightarrow> nat" where
  "nextpow2 x = nextpow2_nat (nat x)"

subsection \<open>levinson_1d\<close>

text \<open>The state of the outer loop: the coefficients \<open>a\<close>, the temporary \<open>t\<close>, the reflection
  coefficients \<open>k\<close> and the error \<open>e\<close>. One pass of the body for the index \<open>i\<close>:\<close>

definition levinson_body ::
  "complex list \<Rightarrow> nat \<Rightarrow> nat \<Rightarrow>
   complex list \<times> complex list \<times> complex list \<times> complex \<Rightarrow>
   complex list \<times> complex list \<times> complex list \<times> complex" where
  "levinson_body r order i s =
     (case s of (a, t, k, e) \<Rightarrow>
        let acc = fold (\<lambda>j acc. acc + a ! j * r ! (i - j)) [1..<i] (r ! i);
            k = k[i - 1 := - acc / e];
            a = a[i := k ! (i - 1)];
            t = fold (\<lambda>j t. t[j := a ! j]) [0..<order] t;
            a = fold (\<lambda>j a. a[j := a ! j + k ! (i - 1) * cnj (t ! (i - j))]) [1..<i] a;
            e = e * (1 - k ! (i - 1) * cnj (k ! (i - 1)))
        in (a, t, k, e))"

text \<open>\<open>r\<close> is the array after \<^verbatim>\<open>np.atleast_1d\<close>. \<^verbatim>\<open>np.isreal(r[0])\<close> holds when the
  imaginary part is zero; over the reals \<open>1 / r[0]\<close> is finite exactly when \<open>r[0]\<close> is not
  zero. A negative order passes the checks and fails in \<^verbatim>\<open>np.empty\<close>. The result is
  \<open>(a, e, k)\<close>.\<close>

definition levinson_1d ::
  "(nat \<Rightarrow> complex) \<Rightarrow> complex list \<Rightarrow> int \<Rightarrow> error + (complex list \<times> complex \<times> complex list)" where
  "levinson_1d u r order =
     (let n = length r in
      if n < 1 then Inl (ValueError ''Cannot operate on empty array !'')
      else if order > int n - 1 then Inl (ValueError ''Order should be <= size-1'')
      else if Im (r ! 0) \<noteq> 0 then Inl (ValueError ''First item of input must be real.'')
      else if r ! 0 = 0 then Inl (ValueError ''First item should be != 0'')
      else if order < 0 then Inl (ValueError ''negative dimensions are not allowed'')
      else
        let a = np_empty u (nat order + 1);
            t = np_empty u (nat order + 1);
            k = np_empty u (nat order);
            a = a[0 := 1];
            e = r ! 0
        in case fold (levinson_body r (nat order)) [1..<nat order + 1] (a, t, k, e) of
             (a, t, k, e) \<Rightarrow> Inr (a, e, k))"

subsection \<open>acorr_lpc and lpc\<close>

definition acorr_last_axis :: "real list \<Rightarrow> nat \<Rightarrow> int \<Rightarrow> real list" where
  "acorr_last_axis x nfft maxlag =
     (let a = map Re (ifft (map (\<lambda>z. complex_of_real (cmod (z\<^sup>2)))
                             (fft (map complex_of_real x) nfft)))
      in map (\<lambda>v. v / real (length x)) (py_slice a 0 (maxlag + 1)))"

text \<open>The input is a list of reals, so the complex-input error cannot arise; the axis is
  the last one, the only axis of a frame.\<close>

definition acorr_lpc :: "real list \<Rightarrow> real list" where
  "acorr_lpc x =
     (let maxlag = int (length x);
          nfft = 2 ^ nextpow2 (2 * maxlag - 1)
      in acorr_last_axis x nfft maxlag)"

text \<open>\<^verbatim>\<open>lpc\<close> hands the real autocorrelation to \<^verbatim>\<open>levinson_1d\<close>; the uninitialised
  cells are taken to hold zero here (the result does not depend on them, see
  \<open>levinson_1d_uninit\<close>).\<close>

definition lpc :: "real list \<Rightarrow> int \<Rightarrow> error + (complex list \<times> complex \<times> complex list)" where
  "lpc signal order =
     (let n = int (length signal) in
      if order > n then Inl (ValueError ''Input signal must have length >= order'')
      else levinson_1d (\<lambda>_. 0) (map complex_of_real (acorr_lpc signal)) order)"

subsection \<open>Formants and LpcFormants\<close>

text \<open>An entry of a frame is a pair \<open>(frequency, bandwidth)\<close>, or \<^verbatim>\<open>(None, None)\<close>.
  \<^verbatim>\<open>_rep\<close> is a dict; the model keeps it as an association list in insertion order, which
  is the order Python iterates in.

  Modelled from the spec: the constructor of the base class \<^verbatim>\<open>Representation\<close>, which
  is not among the sources. It is called with the file path and the pair \<open>(0, max_freq)\<close>;
  \<^verbatim>\<open>process\<close> reads them back as \<^verbatim>\<open>self._filepath\<close> and \<^verbatim>\<open>self._freq_lims\<close>, whose
  second component the specification calls the maximal frequency.\<close>

type_synonym frame = "(real option \<times> real option) list"

record formants =
  filepath :: string
  freq_lims :: "real \<times> real"
  num_formants :: int
  win_len :: real
  window_shape :: string
  time_step :: real
  rep :: "(real \<times> frame) list"

definition Formants_init ::
  "string \<Rightarrow> real \<Rightarrow> int \<Rightarrow> real \<Rightarrow> real \<Rightarrow> string option \<Rightarrow> string \<Rightarrow> formants" where
  "Formants_init fp max_freq nf wl ts attributes shape =
     \<lparr> filepath = fp, freq_lims = (0, max_freq), num_formants = nf,
       win_len = (if shape = ''gaussian'' then wl * 2 else wl),
       window_shape = shape, time_step = ts, rep = [] \<rparr>"

text \<open>In \<^verbatim>\<open>to_array\<close> a cell of the output array is a float; a \<^verbatim>\<open>None\<close> stored into it
  becomes NaN, which the model writes \<open>None\<close>. Assigning a list to a row needs the row's
  length, or length 1 (broadcast).\<close>

definition assign_row :: "nat \<Rightarrow> real option list \<Rightarrow> error + real option list" where
  "assign_row frame_len xs =
     (if length xs = frame_len then Inr xs
      else if length xs = 1 then Inr (replicate frame_len (hd xs))
      else Inl (ValueError ''could not broadcast input array''))"

fun to_array_rows ::
  "(real \<times> frame) list \<Rightarrow> string \<Rightarrow> nat \<Rightarrow> (nat \<times> real) list \<Rightarrow> real option list list \<Rightarrow>
   error + real option list list" where
  "to_array_rows d v frame_len [] output = Inr output"
| "to_array_rows d v frame_len ((i, t) # rest) output =
     (case map_of d t of
        None \<Rightarrow> Inl KeyError
      | Some fr \<Rightarrow>
          if v = ''formant'' then
            (case assign_row frame_len (map fst fr) of
               Inl e \<Rightarrow> Inl e
             | Inr row \<Rightarrow> to_array_rows d v frame_len rest (output[i := row]))
          else if v = ''bandwidth'' then
            (case assign_row frame_len (map snd fr) of
               Inl e \<Rightarrow> Inl e
             | Inr row \<Rightarrow> to_array_rows d v frame_len rest (output[i := row]))
          else to_array_rows d v frame_len rest output)"

definition to_array :: "formants \<Rightarrow> string \<Rightarrow> error + real option list list" where
  "to_array self v =
     (let times = sort (map fst (rep self)) in
      case map snd (rep self) of
        [] \<Rightarrow> Inl StopIteration
      | ex # _ \<Rightarrow>
          let frame_len = length ex;
              output = replicate (length times) (replicate frame_len (Some 0))
          in to_array_rows (rep self) v frame_len (enumerate 0 times) output)"

text \<open>\<^verbatim>\<open>LpcFormants.__init__\<close> calls the base constructor and then \<^verbatim>\<open>process\<close>;
  \<open>LpcFormants_new\<close> is the object as the base constructor leaves it.\<close>

definition LpcFormants_new ::
  "string \<Rightarrow> real \<Rightarrow> int \<Rightarrow> real \<Rightarrow> real \<Rightarrow> string option \<Rightarrow> string \<Rightarrow> formants" where
  "LpcFormants_new fp max_freq nf wl ts attributes shape =
     Formants_init fp max_freq nf wl ts None ''gaussian''"

text \<open>The window of \<^verbatim>\<open>process\<close> (lines 244 to 247).\<close>

definition analysis_window :: "formants \<Rightarrow> int \<Rightarrow> real list" where
  "analysis_window self nperseg =
     (if window_shape self = ''gaussian''
      then py_slice (gaussian (nperseg + 2) (0.45 * (real_of_int nperseg - 1) / 2)) 1 (nperseg + 1)
      else py_slice (hanning (nperseg + 2)) 1 (nperseg + 1))"

text \<open>Lines 258 to 264: the retained roots, their frequencies in ascending order and the
  bandwidths in the same order. \<open>candidates\<close> pairs them as the loop of line 266 reads
  them.\<close>

definition retained :: "complex list \<Rightarrow> complex list" where
  "retained rts = filter (\<lambda>r. Im r \<ge> 0) rts"

definition root_frq :: "real \<Rightarrow> complex \<Rightarrow> real" where
  "root_frq new_sr r = arctan2 (Im r) (Re r) * (new_sr / (2 * pi))"

definition root_bw :: "real \<Rightarrow> complex \<Rightarrow> real" where
  "root_bw new_sr r = - 1 / 2 * (new_sr / (2 * pi)) * ln (cmod r)"

definition candidates :: "real \<Rightarrow> complex list \<Rightarrow> (real \<times> real) list" where
  "candidates new_sr rts0 =
     (let rts = retained rts0;
          frqs0 = map (root_frq new_sr) rts;
          frq_inds = argsort frqs0;
          frqs = map (\<lambda>i. frqs0 ! i) frq_inds;
          bw = map (\<lambda>i. root_bw new_sr (rts ! i)) frq_inds
      in zip frqs bw)"

text \<open>Lines 265 to 274: the frame built from the candidates. A negative \<open>missing\<close> repeats
  the padding zero times.\<close>

definition frame_formants :: "real \<Rightarrow> real \<Rightarrow> int \<Rightarrow> complex list \<Rightarrow> frame" where
  "frame_formants new_sr max_freq nf rts0 =
     (let formants = map (\<lambda>(f, b). (Some f, Some b))
                       (filter (\<lambda>(f, b). \<not> f < 50 \<and> \<not> f > max_freq - 50)
                          (candidates new_sr rts0));
          missing = nf - int (length formants)
      in if missing \<noteq> 0 then formants @ replicate (nat missing) (None, None) else formants)"

text \<open>The loop over the frames. \<open>roots\<close> is \<^verbatim>\<open>numpy.roots\<close>, \<open>h\<close> is
  \<^verbatim>\<open>int(nperseg/2)\<close>.\<close>

fun process_frames ::
  "(complex list \<Rightarrow> complex list) \<Rightarrow> real list \<Rightarrow> real \<Rightarrow> real list \<Rightarrow> int \<Rightarrow> int list \<Rightarrow>
   formants \<Rightarrow> error + formants" where
  "process_frames roots proc new_sr window h [] self = Inr self"
| "process_frames roots proc new_sr window h (idx # rest) self =
     (case np_multiply (py_slice proc (idx - h) (idx + h)) window of
        Inl err \<Rightarrow> Inl err
      | Inr X \<Rightarrow>
          (case lpc X (num_formants self * 2) of
             Inl err \<Rightarrow> Inl err
           | Inr (A, e, k) \<Rightarrow>
               let formants = frame_formants new_sr (snd (freq_lims self)) (num_formants self)
                                (roots A)
               in process_frames roots proc new_sr window h rest
                    (self\<lparr>rep := AList.update (real_of_int idx / new_sr) formants (rep self)\<rparr>)))"

text \<open>\<^verbatim>\<open>process\<close>. Reading the file, the pre-emphasis and the resampling are done by
  collaborators that are not among the sources: \<open>proc\<close> is the signal after
  \<^verbatim>\<open>resample\<close>. \<^verbatim>\<open>1/new_sr\<close> raises when the maximal frequency is zero, and
  \<^verbatim>\<open>zeros((num_frames, num_formants))\<close> raises on a negative number of formants.\<close>

definition process ::
  "(complex list \<Rightarrow> complex list) \<Rightarrow> real list \<Rightarrow> formants \<Rightarrow> error + formants" where
  "process roots proc self0 =
     (let self = self0\<lparr>rep := []\<rparr>;
          new_sr = 2 * snd (freq_lims self)
      in if new_sr = 0 then Inl ZeroDivisionError
         else
           let nperseg = py_int (win_len self * new_sr);
               nperstep = py_int (time_step self * new_sr);
               window = analysis_window self nperseg;
               h = py_int (real_of_int nperseg / 2)
           in case arange h (int (length proc) - h + 1) nperstep of
                Inl err \<Rightarrow> Inl err
              | Inr indices \<Rightarrow>
                  if num_formants self < 0
                  then Inl (ValueError ''negative dimensions are not allowed'')
                  else process_frames roots proc new_sr window h indices self)"

definition LpcFormants_init ::
  "(complex list \<Rightarrow> complex list) \<Rightarrow> real list \<Rightarrow>
   string \<Rightarrow> real \<Rightarrow> int \<Rightarrow> real \<Rightarrow> real \<Rightarrow> string option \<Rightarrow> string \<Rightarrow> error + formants" where
  "LpcFormants_init roots proc fp max_freq nf wl ts attributes shape =
     process roots proc (LpcFormants_new fp max_freq nf wl ts attributes shape)"

subsection \<open>The calls on a store of arrays\<close>

text \<open>The arrays of a program live in a store: a list of arrays, the address of an array
  being its index. Allocation appends a new array; an element is read and written through
  the address. The functions below are \<^verbatim>\<open>levinson_1d\<close> and \<^verbatim>\<open>acorr_lpc\<close> once more,
  with every array access made through the store: the argument is the address of the
  caller's array (\<^verbatim>\<open>np.atleast_1d\<close> returns the very same array), \<^verbatim>\<open>np.empty\<close>,
  \<^verbatim>\<open>fft\<close>, \<^verbatim>\<open>**\<close>, \<^verbatim>\<open>np.abs\<close>, \<^verbatim>\<open>ifft\<close> and the division allocate, \<^verbatim>\<open>np.real\<close> and
  the slice are views. An array's dtype is not modelled: \<^verbatim>\<open>np.isrealobj\<close> is the test that
  no entry has an imaginary part.\<close>

type_synonym store = "complex list list"

definition st_alloc :: "store \<Rightarrow> complex list \<Rightarrow> nat \<times> store" where
  "st_alloc s arr = (length s, s @ [arr])"

definition st_get :: "store \<Rightarrow> nat \<Rightarrow> nat \<Rightarrow> complex" where
  "st_get s p i = s ! p ! i"

definition st_set :: "store \<Rightarrow> nat \<Rightarrow> nat \<Rightarrow> complex \<Rightarrow> store" where
  "st_set s p i v = s[p := (s ! p)[i := v]]"

definition levinson_body_st ::
  "nat \<Rightarrow> nat \<Rightarrow> nat \<Rightarrow> nat \<Rightarrow> nat \<Rightarrow> nat \<Rightarrow> store \<times> complex \<Rightarrow> store \<times> complex" where
  "levinson_body_st r a t k order i se =
     (case se of (s, e) \<Rightarrow>
        let acc = fold (\<lambda>j acc. acc + st_get s a j * st_get s r (i - j)) [1..<i] (st_get s r i);
            s = st_set s k (i - 1) (- acc / e);
            s = st_set s a i (st_get s k (i - 1));
            s = fold (\<lambda>j s. st_set s t j (st_get s a j)) [0..<order] s;
            s = fold (\<lambda>j s. st_set s a j
                        (st_get s a j + st_get s k (i - 1) * cnj (st_get s t (i - j)))) [1..<i] s;
            e = e * (1 - st_get s k (i - 1) * cnj (st_get s k (i - 1)))
        in (s, e))"

definition levinson_1d_st ::
  "(nat \<Rightarrow> complex) \<Rightarrow> store \<Rightarrow> nat \<Rightarrow> int \<Rightarrow> error + ((nat \<times> complex \<times> nat) \<times> store)" where
  "levinson_1d_st u s r order =
     (let n = length (s ! r) in
      if n < 1 then Inl (ValueError ''Cannot operate on empty array !'')
      else if order > int n - 1 then Inl (ValueError ''Order should be <= size-1'')
      else if Im (st_get s r 0) \<noteq> 0 then Inl (ValueError ''First item of input must be real.'')
      else if st_get s r 0 = 0 then Inl (ValueError ''First item should be != 0'')
      else if order < 0 then Inl (ValueError ''negative dimensions are not allowed'')
      else
        case st_alloc s (np_empty u (nat order + 1)) of (a, s) \<Rightarrow>
        case st_alloc s (np_empty u (nat order + 1)) of (t, s) \<Rightarrow>
        case st_alloc s (np_empty u (nat order)) of (k, s) \<Rightarrow>
          let s = st_set s a 0 1;
              e = st_get s r 0
          in case fold (levinson_body_st r a t k (nat order)) [1..<nat order + 1] (s, e) of
               (s, e) \<Rightarrow> Inr ((a, e, k), s))"

definition acorr_lpc_st :: "store \<Rightarrow> nat \<Rightarrow> error + (nat \<times> store)" where
  "acorr_lpc_st s x =
     (if \<not> list_all (\<lambda>z. Im z = 0) (s ! x)
      then Inl (ValueError ''Complex input not supported yet'')
      else
        let maxlag = int (length (s ! x));
            nfft = 2 ^ nextpow2 (2 * maxlag - 1)
        in case st_alloc s (fft (s ! x) nfft) of (f, s) \<Rightarrow>
           case st_alloc s (map (\<lambda>z. z\<^sup>2) (s ! f)) of (p, s) \<Rightarrow>
           case st_alloc s (map (\<lambda>z. complex_of_real (cmod z)) (s ! p)) of (m, s) \<Rightarrow>
           case st_alloc s (ifft (s ! m)) of (i, s) \<Rightarrow>
           case st_alloc s (map (\<lambda>v. v / of_nat (length (s ! x)))
                              (py_slice (map (\<lambda>z. complex_of_real (Re z)) (s ! i)) 0 (maxlag + 1)))
             of (a, s) \<Rightarrow> Inr (a, s))"

subsection \<open>The contract of numpy.roots\<close>


subsection \<open>The specification's formulations\<close>

text \<open>The Levinson-Durbin recursion in the specification's words: \<open>a[0] = 1\<close> and
  \<open>e = r[0]\<close> initially; at step \<open>i\<close> the reflection coefficient is
  \<open>k[i] = -(r[i] + \<Sum>j=1..i-1. a[j] r[i-j]) / e\<close>, every \<open>a[j]\<close> with \<open>1 \<le> j < i\<close> becomes
  \<open>a[j] + k[i] conj(a[i-j])\<close> with the coefficients of before the step on the right,
  \<open>a[i] = k[i]\<close>, and \<open>e\<close> is multiplied by \<open>1 - k[i] conj(k[i])\<close>. The result after
  \<open>m\<close> steps is \<open>(a, e, k)\<close>, with \<open>k\<close> indexed from 1 as in the specification.\<close>

fun levinson_spec :: "complex list \<Rightarrow> nat \<Rightarrow> (nat \<Rightarrow> complex) \<times> complex \<times> (nat \<Rightarrow> complex)" where
  "levinson_spec r 0 = ((\<lambda>j. if j = 0 then 1 else 0), r ! 0, (\<lambda>i. 0))"
| "levinson_spec r (Suc m) =
     (case levinson_spec r m of (a, e, k) \<Rightarrow>
        let i = Suc m;
            ki = - (r ! i + (\<Sum>j = 1..<i. a j * r ! (i - j))) / e
        in ((\<lambda>j. if j = i then ki
                  else if 1 \<le> j \<and> j < i then a j + ki * cnj (a (i - j))
                  else a j),
            e * (1 - ki * cnj ki),
            k(i := ki)))"

text \<open>The loop invariant of \<^verbatim>\<open>levinson_1d\<close>: after the pass for \<open>i = m\<close> the arrays have
  their lengths and agree with the recursion on the cells written so far.\<close>

definition lev_inv ::
  "complex list \<Rightarrow> nat \<Rightarrow> nat \<Rightarrow> complex list \<times> complex list \<times> complex list \<times> complex \<Rightarrow> bool" where
  "lev_inv r order m s =
     (case s of (a, t, k, e) \<Rightarrow>
        case levinson_spec r m of (sa, se, sk) \<Rightarrow>
          length a = order + 1 \<and> length t = order + 1 \<and> length k = order \<and>
          (\<forall>j\<le>m. a ! j = sa j) \<and> e = se \<and> (\<forall>i. 1 \<le> i \<and> i \<le> m \<longrightarrow> k ! (i - 1) = sk i))"

text \<open>The direct biased autocorrelation at lag \<open>m\<close>: the sum of the products of the samples
  \<open>m\<close> apart, divided by the frame length.\<close>

definition acorr_direct :: "real list \<Rightarrow> nat \<Rightarrow> real" where
  "acorr_direct x m = (\<Sum>n<length x - m. x ! n * x ! (n + m)) / real (length x)"

section \<open>Properties\<close>

subsection \<open>levinson_1d computes the recursion\<close>

lemma fold_acc_sum:
  "fold (\<lambda>j acc. acc + f j) [lo..<hi] (c::complex) = c + sum f {lo..<hi}"
proof (induction hi)
  case 0
  then show ?case by simp
next
  case (Suc hi)
  show ?case
  proof (cases "lo \<le> hi")
    case True
    then have "{lo..<Suc hi} = insert hi {lo..<hi}" by auto
    with True Suc show ?thesis by (simp add: add.assoc add.commute)
  next
    case False
    then show ?thesis by simp
  qed
qed

lemma fold_upd_length:
  "length (fold (\<lambda>j xs. xs[j := F j xs]) js xs) = length xs"
  by (induction js arbitrary: xs) auto

lemma fold_upd_nth:
  "distinct js \<Longrightarrow> n < length xs \<Longrightarrow>
   fold (\<lambda>j xs. xs[j := F j (xs ! j)]) js xs ! n =
     (if n \<in> set js then F n (xs ! n) else xs ! n)"
proof (induction js arbitrary: xs)
  case Nil
  then show ?case by simp
next
  case (Cons j js)
  then show ?case by (cases "j = n") auto
qed

lemma lev_body_inv:
  assumes "lev_inv r order m s" and "m < order"
  shows "lev_inv r order (Suc m) (levinson_body r order (Suc m) s)"
proof -
  obtain a t k e where s: "s = (a, t, k, e)" by (cases s)
  obtain sa se sk where sp: "levinson_spec r m = (sa, se, sk)" by (cases "levinson_spec r m")
  from assms s sp have la: "length a = order + 1" and lt: "length t = order + 1"
    and lk: "length k = order" and a: "\<And>j. j \<le> m \<Longrightarrow> a ! j = sa j" and e: "e = se"
    and k: "\<And>i. 1 \<le> i \<Longrightarrow> i \<le> m \<Longrightarrow> k ! (i - 1) = sk i"
    by (auto simp: lev_inv_def)
  define i where "i = Suc m"
  define acc where "acc = fold (\<lambda>j acc. acc + a ! j * r ! (i - j)) [1..<i] (r ! i)"
  define ki where "ki = - acc / e"
  define k1 where "k1 = k[i - 1 := ki]"
  define a1 where "a1 = a[i := k1 ! (i - 1)]"
  define t1 where "t1 = fold (\<lambda>j t. t[j := a1 ! j]) [0..<order] t"
  define a2 where "a2 = fold (\<lambda>j a. a[j := a ! j + k1 ! (i - 1) * cnj (t1 ! (i - j))]) [1..<i] a1"
  have body: "levinson_body r order (Suc m) s = (a2, t1, k1, e * (1 - k1 ! (i - 1) * cnj (k1 ! (i - 1))))"
    by (simp add: levinson_body_def s Let_def acc_def ki_def k1_def a1_def t1_def a2_def i_def)
  have acc: "acc = r ! i + (\<Sum>j = 1..<i. sa j * r ! (i - j))"
    unfolding acc_def fold_acc_sum using a by (simp add: i_def)
  have k1i: "k1 ! (i - 1) = ki" using lk assms(2) by (simp add: k1_def i_def)
  have la1: "length a1 = order + 1" by (simp add: a1_def la)
  have a1i: "a1 ! i = ki" using la assms(2) k1i by (simp add: a1_def i_def)
  have a1j: "\<And>j. j \<le> m \<Longrightarrow> a1 ! j = sa j" using a by (simp add: a1_def i_def)
  have lt1: "length t1 = order + 1" unfolding t1_def by (simp add: fold_upd_length lt)
  have t1j: "\<And>j. j < order \<Longrightarrow> t1 ! j = a1 ! j"
    unfolding t1_def using fold_upd_nth[of "[0..<order]" _ t "\<lambda>j _. a1 ! j"] lt by simp
  have la2: "length a2 = order + 1" unfolding a2_def by (simp add: fold_upd_length la1)
  have a2n: "\<And>n. n \<le> order \<Longrightarrow>
      a2 ! n = (if 1 \<le> n \<and> n < i then a1 ! n + ki * cnj (t1 ! (i - n)) else a1 ! n)"
    unfolding a2_def
    using fold_upd_nth[of "[1..<i]" _ a1 "\<lambda>j x. x + k1 ! (i - 1) * cnj (t1 ! (i - j))"] la1 k1i
    by auto
  have a2: "\<And>j. j \<le> Suc m \<Longrightarrow> a2 ! j =
      (if j = i then ki else if 1 \<le> j \<and> j < i then sa j + ki * cnj (sa (i - j)) else sa j)"
  proof -
    fix j assume j: "j \<le> Suc m"
    then have jo: "j \<le> order" using assms(2) by simp
    note a2n = a2n[OF jo]
    show "a2 ! j = (if j = i then ki else if 1 \<le> j \<and> j < i then sa j + ki * cnj (sa (i - j)) else sa j)"
    proof (cases "j = i")
      case True
      then show ?thesis using a2n a1i by simp
    next
      case False
      with j have jm: "j \<le> m" by (simp add: i_def)
      show ?thesis
      proof (cases "1 \<le> j")
        case True
        with jm have "i - j < order" "i - j \<le> m" using assms(2) by (auto simp: i_def)
        then have "t1 ! (i - j) = sa (i - j)" using t1j a1j by simp
        with True jm False show ?thesis using a2n a1j[of j] by (simp add: i_def)
      next
        case False
        then show ?thesis using a2n a1j[of j] jm by (simp add: i_def)
      qed
    qed
  qed
  have kk: "\<And>n. 1 \<le> n \<Longrightarrow> n \<le> Suc m \<Longrightarrow> k1 ! (n - 1) = (sk(i := ki)) n"
  proof -
    fix n assume n: "1 \<le> n" "n \<le> Suc m"
    show "k1 ! (n - 1) = (sk(i := ki)) n"
    proof (cases "n = i")
      case True
      then show ?thesis using k1i by simp
    next
      case False
      with n have "n \<le> m" "n - 1 \<noteq> i - 1" by (auto simp: i_def)
      then show ?thesis using k[of n] n False by (simp add: k1_def)
    qed
  qed
  have kis: "ki = - (r ! i + (\<Sum>j = 1..<i. sa j * r ! (i - j))) / se"
    by (simp add: ki_def acc e)
  have sp': "levinson_spec r (Suc m) =
      ((\<lambda>j. if j = i then ki else if 1 \<le> j \<and> j < i then sa j + ki * cnj (sa (i - j)) else sa j),
       se * (1 - ki * cnj ki), sk(i := ki))"
    unfolding kis i_def by (simp only: levinson_spec.simps sp prod.case Let_def)
  show ?thesis
    unfolding body lev_inv_def sp' k1i
    using la2 lt1 lk a2 kk by (simp add: e k1_def)
qed

lemma lev_fold_inv:
  assumes "lev_inv r order 0 s0" and "m \<le> order"
  shows "lev_inv r order m (fold (levinson_body r order) [1..<Suc m] s0)"
  using assms(2)
proof (induction m)
  case 0
  then show ?case using assms(1) by simp
next
  case (Suc m)
  then have "lev_inv r order m (fold (levinson_body r order) [1..<Suc m] s0)" by simp
  from lev_body_inv[OF this] Suc.prems show ?case by simp
qed

lemma levinson_1d_spec:
  assumes "r \<noteq> []" "Im (r ! 0) = 0" "r ! 0 \<noteq> 0" "0 \<le> order" "order \<le> int (length r) - 1"
    and "levinson_spec r (nat order) = (sa, se, sk)"
  shows "levinson_1d u r order =
           Inr (map sa [0..<nat order + 1], se, map (\<lambda>i. sk (Suc i)) [0..<nat order])"
proof -
  define n where "n = nat order"
  define s0 where "s0 = ((np_empty u (n + 1))[0 := 1], np_empty u (n + 1), np_empty u n, r ! 0)"
  have "lev_inv r n 0 s0" by (simp add: lev_inv_def s0_def np_empty_def)
  from lev_fold_inv[OF this, of n] have inv: "lev_inv r n n (fold (levinson_body r n) [1..<Suc n] s0)"
    by simp
  obtain a t k e where f: "fold (levinson_body r n) [1..<Suc n] s0 = (a, t, k, e)"
    by (cases "fold (levinson_body r n) [1..<Suc n] s0")
  from inv f assms(6) have la: "length a = n + 1" and lk: "length k = n"
    and a: "\<And>j. j \<le> n \<Longrightarrow> a ! j = sa j" and e: "e = se"
    and k: "\<And>i. 1 \<le> i \<Longrightarrow> i \<le> n \<Longrightarrow> k ! (i - 1) = sk i"
    by (auto simp: lev_inv_def n_def)
  have a': "a = map sa [0..<n + 1]"
    by (rule nth_equalityI) (use la a in \<open>auto simp: nth_append less_Suc_eq\<close>)
  have k': "k = map (\<lambda>i. sk (Suc i)) [0..<n]"
  proof (rule nth_equalityI)
    show "length k = length (map (\<lambda>i. sk (Suc i)) [0..<n])" by (simp add: lk)
  next
    fix i assume "i < length k"
    then have "i < n" by (simp add: lk)
    then show "k ! i = map (\<lambda>i. sk (Suc i)) [0..<n] ! i" using k[of "Suc i"] by simp
  qed
  have "levinson_1d u r order =
          (case fold (levinson_body r n) [1..<Suc n] s0 of (a, t, k, e) \<Rightarrow> Inr (a, e, k))"
    using assms(1-5) by (simp add: levinson_1d_def Let_def n_def s0_def del: upt_Suc)
  with f show ?thesis
    by (simp add: a' k' e n_def del: upt_Suc)
qed

subsection \<open>The autocorrelation by FFT\<close>

lemma cis_eq_1_iff_int: "cis t = 1 \<longleftrightarrow> (\<exists>x::int. t = real_of_int x * 2 * pi)"
proof
  assume "cis t = 1"
  then have "cos t = 1" by (simp add: complex_eq_iff)
  then show "\<exists>x::int. t = real_of_int x * 2 * pi" by (simp add: cos_one_2pi_int)
next
  assume "\<exists>x::int. t = real_of_int x * 2 * pi"
  then obtain x :: int where "t = real_of_int x * 2 * pi" by blast
  then have "t = 2 * pi * real_of_int x" by simp
  then show "cis t = 1" using cis_multiple_2pi[of "real_of_int x"] by simp
qed

lemma root_of_unity_sum:
  assumes "0 < N"
  shows "(\<Sum>k<N. cis (2 * pi * real k * real_of_int d / real N)) =
           (if int N dvd d then of_nat N else 0)"
proof -
  define w where "w = cis (2 * pi * real_of_int d / real N)"
  have pw: "\<And>k. cis (2 * pi * real k * real_of_int d / real N) = w ^ k"
    by (simp add: w_def DeMoivre algebra_simps)
  have wN: "w ^ N = 1"
  proof -
    have "w ^ N = cis (2 * pi * real_of_int d)" using assms by (simp add: w_def DeMoivre)
    then show ?thesis using cis_multiple_2pi[of "real_of_int d"] by simp
  qed
  have w1: "w = 1 \<longleftrightarrow> int N dvd d"
  proof
    assume "w = 1"
    then obtain x :: int where x: "2 * pi * real_of_int d / real N = real_of_int x * 2 * pi"
      unfolding w_def cis_eq_1_iff_int by blast
    then have "real_of_int d = real_of_int x * real N" using assms by (simp add: field_simps)
    then have "real_of_int d = real_of_int (x * int N)" by simp
    then have "d = x * int N" by (simp only: of_int_eq_iff)
    then show "int N dvd d" by simp
  next
    assume "int N dvd d"
    then obtain x where "d = int N * x" by (auto simp: dvd_def)
    then have "2 * pi * real_of_int d / real N = real_of_int x * 2 * pi" using assms by simp
    then show "w = 1" unfolding w_def cis_eq_1_iff_int by blast
  qed
  have "(\<Sum>k<N. cis (2 * pi * real k * real_of_int d / real N)) = (\<Sum>k<N. w ^ k)"
    by (simp add: pw)
  also have "\<dots> = (if w = 1 then of_nat N else (1 - w ^ N) / (1 - w))"
    by (rule sum_gp_strict)
  also have "\<dots> = (if int N dvd d then of_nat N else 0)"
    by (simp add: wN w1)
  finally show ?thesis .
qed

lemma sum_cnj_sum_mult:
  fixes f g :: "nat \<Rightarrow> complex"
  shows "sum f A * cnj (sum g B) * c = (\<Sum>j\<in>A. \<Sum>l\<in>B. f j * cnj (g l) * c)"
proof -
  have "sum f A * cnj (sum g B) = (\<Sum>j\<in>A. \<Sum>l\<in>B. f j * cnj (g l))"
    by (simp add: cnj_sum sum_product)
  then show ?thesis by (simp add: sum_distrib_right)
qed

lemma power_spectrum_inverse:
  fixes p :: "nat \<Rightarrow> complex"
  assumes "0 < N"
  shows "(\<Sum>k<N. (\<Sum>j<N. p j * cis (- (2 * pi * real j * real k / real N))) *
                   cnj (\<Sum>l<N. p l * cis (- (2 * pi * real l * real k / real N))) *
                   cis (2 * pi * real k * real m / real N)) =
         of_nat N * (\<Sum>j<N. \<Sum>l<N. if int N dvd (int m + int l - int j) then p j * cnj (p l) else 0)"
proof -
  have tm: "\<And>k j l. p j * cis (- (2 * pi * real j * real k / real N)) *
                 cnj (p l * cis (- (2 * pi * real l * real k / real N))) *
                 cis (2 * pi * real k * real m / real N)
               = p j * cnj (p l) * cis (2 * pi * real k * real_of_int (int m + int l - int j) / real N)"
  proof -
    fix k j l
    have "cis (- (2 * pi * real j * real k / real N)) * cis (2 * pi * real l * real k / real N) *
            cis (2 * pi * real k * real m / real N)
          = cis (2 * pi * real k * real_of_int (int m + int l - int j) / real N)"
      by (simp add: cis_mult algebra_simps add_divide_distrib diff_divide_distrib)
    then show "p j * cis (- (2 * pi * real j * real k / real N)) *
                 cnj (p l * cis (- (2 * pi * real l * real k / real N))) *
                 cis (2 * pi * real k * real m / real N)
               = p j * cnj (p l) * cis (2 * pi * real k * real_of_int (int m + int l - int j) / real N)"
      by (simp add: cis_cnj mult.assoc mult.left_commute)
  qed
  have "(\<Sum>k<N. (\<Sum>j<N. p j * cis (- (2 * pi * real j * real k / real N))) *
                   cnj (\<Sum>l<N. p l * cis (- (2 * pi * real l * real k / real N))) *
                   cis (2 * pi * real k * real m / real N))
        = (\<Sum>k<N. \<Sum>j<N. \<Sum>l<N. p j * cnj (p l) *
              cis (2 * pi * real k * real_of_int (int m + int l - int j) / real N))"
  proof (rule sum.cong[OF refl])
    fix k
    have "(\<Sum>j<N. p j * cis (- (2 * pi * real j * real k / real N))) *
            cnj (\<Sum>l<N. p l * cis (- (2 * pi * real l * real k / real N))) *
            cis (2 * pi * real k * real m / real N)
          = (\<Sum>j<N. \<Sum>l<N. p j * cis (- (2 * pi * real j * real k / real N)) *
                 cnj (p l * cis (- (2 * pi * real l * real k / real N))) *
                 cis (2 * pi * real k * real m / real N))"
      by (rule sum_cnj_sum_mult)
    then show "(\<Sum>j<N. p j * cis (- (2 * pi * real j * real k / real N))) *
            cnj (\<Sum>l<N. p l * cis (- (2 * pi * real l * real k / real N))) *
            cis (2 * pi * real k * real m / real N)
          = (\<Sum>j<N. \<Sum>l<N. p j * cnj (p l) *
              cis (2 * pi * real k * real_of_int (int m + int l - int j) / real N))"
      by (simp only: tm)
  qed
  also have "\<dots> = (\<Sum>j<N. \<Sum>k<N. \<Sum>l<N. p j * cnj (p l) *
              cis (2 * pi * real k * real_of_int (int m + int l - int j) / real N))"
    by (rule sum.swap)
  also have "\<dots> = (\<Sum>j<N. \<Sum>l<N. \<Sum>k<N. p j * cnj (p l) *
              cis (2 * pi * real k * real_of_int (int m + int l - int j) / real N))"
    by (rule sum.cong[OF refl]) (rule sum.swap)
  also have "\<dots> = (\<Sum>j<N. \<Sum>l<N. p j * cnj (p l) *
              (if int N dvd (int m + int l - int j) then of_nat N else 0))"
    by (simp only: sum_distrib_left[symmetric] root_of_unity_sum[OF assms])
  also have "\<dots> = of_nat N * (\<Sum>j<N. \<Sum>l<N. if int N dvd (int m + int l - int j) then p j * cnj (p l) else 0)"
    by (simp add: sum_distrib_left if_distrib[of "\<lambda>x. _ * x"] mult.commute cong: if_cong)
  finally show ?thesis .
qed


lemma dvd_small_int:
  assumes "int N dvd v" "- int N < v" "v < int N"
  shows "v = 0"
proof (rule ccontr)
  assume "v \<noteq> 0"
  with assms(1) have "\<bar>int N\<bar> \<le> \<bar>v\<bar>" using dvd_imp_le_int[of v "int N"] by simp
  with assms(2,3) show False by simp
qed

lemma circular_to_linear:
  fixes q :: "nat \<Rightarrow> real"
  assumes "L + m \<le> N" and z: "\<And>j. L \<le> j \<Longrightarrow> q j = 0"
  shows "(\<Sum>j<N. \<Sum>l<N. if int N dvd (int m + int l - int j) then q j * q l else 0)
           = (\<Sum>n<L - m. q n * q (n + m))"
proof -
  have LN: "L \<le> N" using assms(1) by simp
  have "(\<Sum>j<N. \<Sum>l<N. if int N dvd (int m + int l - int j) then q j * q l else 0)
        = (\<Sum>j<N. \<Sum>l<L. if int N dvd (int m + int l - int j) then q j * q l else 0)"
    by (rule sum.cong[OF refl], rule sum.mono_neutral_right) (use LN z in auto)
  also have "\<dots> = (\<Sum>l<L. \<Sum>j<N. if int N dvd (int m + int l - int j) then q j * q l else 0)"
    by (rule sum.swap)
  also have "\<dots> = (\<Sum>l<L. \<Sum>j<L. if int N dvd (int m + int l - int j) then q j * q l else 0)"
    by (rule sum.cong[OF refl], rule sum.mono_neutral_right) (use LN z in auto)
  also have "\<dots> = (\<Sum>l<L. \<Sum>j<L. if j = l + m then q j * q l else 0)"
  proof (rule sum.cong[OF refl], rule sum.cong[OF refl])
    fix l j assume "l \<in> {..<L}" "j \<in> {..<L}"
    then have lj: "l < L" "j < L" by auto
    have "int N dvd (int m + int l - int j) \<longleftrightarrow> j = l + m"
    proof
      assume d: "int N dvd (int m + int l - int j)"
      have "int m + int l - int j = 0"
        by (rule dvd_small_int[OF d]) (use lj assms(1) in auto)
      then show "j = l + m" by simp
    next
      assume "j = l + m"
      then show "int N dvd (int m + int l - int j)" by simp
    qed
    then show "(if int N dvd (int m + int l - int j) then q j * q l else 0)
               = (if j = l + m then q j * q l else 0)" by simp
  qed
  also have "\<dots> = (\<Sum>l<L. if l + m < L then q (l + m) * q l else 0)"
    by (rule sum.cong[OF refl]) (simp add: sum.delta' cong: if_cong)
  also have "\<dots> = (\<Sum>l<L - m. if l + m < L then q (l + m) * q l else 0)"
    by (rule sum.mono_neutral_right) auto
  also have "\<dots> = (\<Sum>n<L - m. q n * q (n + m))"
    by (rule sum.cong[OF refl]) (auto simp: mult.commute)
  finally show ?thesis .
qed

lemma cmod_square_cnj: "complex_of_real (cmod (z\<^sup>2)) = z * cnj z"
  by (simp only: norm_power complex_norm_square)

lemma fft_nth:
  assumes "k < N"
  shows "fft (map complex_of_real x) N ! k =
           (\<Sum>j<N. complex_of_real (if j < length x then x ! j else 0) *
                     cis (- (2 * pi * real j * real k / real N)))"
proof -
  have "\<And>j. j < N \<Longrightarrow>
          (take N (map complex_of_real x) @ replicate (N - length x) 0) ! j
            = complex_of_real (if j < length x then x ! j else 0)"
    by (auto simp: nth_append)
  then show ?thesis using assms by (simp add: fft_def Let_def)
qed

lemma length_fft: "length (fft x N) = N"
  by (simp add: fft_def Let_def)

lemma length_ifft: "length (ifft y) = length y"
  by (simp add: ifft_def Let_def)

lemma acorr_spectrum_nth:
  assumes "m < N" "length x + m \<le> N"
  shows "Re (ifft (map (\<lambda>z. complex_of_real (cmod (z\<^sup>2))) (fft (map complex_of_real x) N)) ! m)
           = (\<Sum>n<length x - m. x ! n * x ! (n + m))"
proof -
  define q where "q j = (if j < length x then x ! j else 0)" for j
  define X where "X k = (\<Sum>j<N. complex_of_real (q j) * cis (- (2 * pi * real j * real k / real N)))" for k
  have N: "0 < N" using assms(1) by simp
  have pw: "\<And>k. k < N \<Longrightarrow>
      map (\<lambda>z. complex_of_real (cmod (z\<^sup>2))) (fft (map complex_of_real x) N) ! k = X k * cnj (X k)"
  proof -
    fix k assume k: "k < N"
    have "map (\<lambda>z. complex_of_real (cmod (z\<^sup>2))) (fft (map complex_of_real x) N) ! k
            = complex_of_real (cmod ((fft (map complex_of_real x) N ! k)\<^sup>2))"
      using k by (simp add: length_fft)
    also have "\<dots> = fft (map complex_of_real x) N ! k * cnj (fft (map complex_of_real x) N ! k)"
      by (rule cmod_square_cnj)
    also have "fft (map complex_of_real x) N ! k = X k"
      unfolding X_def q_def by (rule fft_nth[OF k])
    finally show "map (\<lambda>z. complex_of_real (cmod (z\<^sup>2))) (fft (map complex_of_real x) N) ! k
                    = X k * cnj (X k)" .
  qed
  have "ifft (map (\<lambda>z. complex_of_real (cmod (z\<^sup>2))) (fft (map complex_of_real x) N)) ! m
          = (\<Sum>k<N. X k * cnj (X k) * cis (2 * pi * real k * real m / real N)) / of_nat N"
    using assms(1) pw by (simp add: ifft_def Let_def length_fft)
  also have "(\<Sum>k<N. X k * cnj (X k) * cis (2 * pi * real k * real m / real N))
          = of_nat N * (\<Sum>j<N. \<Sum>l<N. if int N dvd (int m + int l - int j)
                                          then complex_of_real (q j) * cnj (complex_of_real (q l)) else 0)"
    unfolding X_def by (rule power_spectrum_inverse[OF N])
  also have "(\<Sum>j<N. \<Sum>l<N. if int N dvd (int m + int l - int j)
                                          then complex_of_real (q j) * cnj (complex_of_real (q l)) else 0)
          = complex_of_real (\<Sum>j<N. \<Sum>l<N. if int N dvd (int m + int l - int j) then q j * q l else 0)"
    by (simp add: if_distrib[of complex_of_real] cong: if_cong)
  also have "(\<Sum>j<N. \<Sum>l<N. if int N dvd (int m + int l - int j) then q j * q l else 0)
          = (\<Sum>n<length x - m. q n * q (n + m))"
    by (rule circular_to_linear[OF assms(2)]) (simp add: q_def)
  also have "\<dots> = (\<Sum>n<length x - m. x ! n * x ! (n + m))"
    by (rule sum.cong[OF refl]) (auto simp: q_def)
  finally show ?thesis using N by simp
qed

lemma length_acorr_last_axis:
  "0 \<le> maxlag + 1 \<Longrightarrow> length (acorr_last_axis x N maxlag) = min N (nat (maxlag + 1))"
  by (simp add: acorr_last_axis_def Let_def py_slice_def slice_bound_def length_ifft length_fft)

lemma acorr_last_axis_nth:
  assumes "m < N" "length x + m \<le> N" "int m \<le> maxlag"
  shows "acorr_last_axis x N maxlag ! m = acorr_direct x m"
proof -
  have "m < min N (nat (maxlag + 1))" using assms by simp
  then show ?thesis
    using acorr_spectrum_nth[OF assms(1,2)] assms(1,3)
    by (simp add: acorr_last_axis_def Let_def py_slice_def slice_bound_def length_ifft length_fft
        acorr_direct_def)
qed

lemma nextpow2_nat_ge: "n \<le> 2 ^ nextpow2_nat n"
proof (induction n rule: nextpow2_nat.induct)
  case (1 n)
  show ?case
  proof (cases "n \<le> 1")
    case True
    then show ?thesis by simp
  next
    case False
    with 1 have "(n + 1) div 2 \<le> 2 ^ nextpow2_nat ((n + 1) div 2)" by simp
    then have "n \<le> 2 * 2 ^ nextpow2_nat ((n + 1) div 2)" by linarith
    with False show ?thesis by (subst nextpow2_nat.simps) simp
  qed
qed

lemma nfft_ge:
  assumes "2 \<le> L"
  shows "2 * L \<le> (2::nat) ^ nextpow2 (2 * int L - 1)"
proof -
  define p where "p = nextpow2 (2 * int L - 1)"
  have n: "nat (2 * int L - 1) = 2 * L - 1" by simp
  have ge: "2 * L - 1 \<le> 2 ^ p" unfolding p_def nextpow2_def n by (rule nextpow2_nat_ge)
  have "p \<noteq> 0"
  proof
    assume "p = 0"
    with ge assms show False by simp
  qed
  then obtain p' where "p = Suc p'" by (cases p) auto
  then have "even ((2::nat) ^ p)" by simp
  moreover have "odd (2 * L - 1)" using assms by simp
  ultimately have "2 * L - 1 \<noteq> 2 ^ p" by metis
  with ge have "2 * L \<le> 2 ^ p" by simp
  then show ?thesis by (simp add: p_def)
qed

lemma length_acorr_lpc: "2 \<le> length x \<Longrightarrow> length (acorr_lpc x) = length x + 1"
  using nfft_ge[of "length x"]
  by (simp add: acorr_lpc_def Let_def length_acorr_last_axis nat_add_distrib)

lemma acorr_lpc_single: "length x = 1 \<Longrightarrow> length (acorr_lpc x) = 1"
  by (simp add: acorr_lpc_def Let_def length_acorr_last_axis nextpow2_def)

lemma acorr_lpc_nth:
  assumes "x \<noteq> []" "m < length (acorr_lpc x)"
  shows "acorr_lpc x ! m = acorr_direct x m"
proof (cases "2 \<le> length x")
  case True
  from nfft_ge[OF True] have N: "2 * length x \<le> 2 ^ nextpow2 (2 * int (length x) - 1)" .
  from assms(2) True have m: "m \<le> length x" by (simp add: length_acorr_lpc)
  show ?thesis
    unfolding acorr_lpc_def Let_def
    by (rule acorr_last_axis_nth) (use N m True in auto)
next
  case False
  moreover have "length x \<noteq> 0" using assms(1) by simp
  ultimately have L: "length x = 1" by linarith
  with assms(2) have m: "m = 0" by (simp add: acorr_lpc_single)
  show ?thesis
    unfolding acorr_lpc_def Let_def
    by (rule acorr_last_axis_nth) (use L m in \<open>auto simp: nextpow2_def\<close>)
qed

subsection \<open>The solver and the estimator: results\<close>


lemma levinson_1d_uninit: "levinson_1d u r order = levinson_1d u' r order"
proof (cases "r \<noteq> [] \<and> Im (r ! 0) = 0 \<and> r ! 0 \<noteq> 0 \<and> 0 \<le> order \<and> order \<le> int (length r) - 1")
  case True
  obtain sa se sk where "levinson_spec r (nat order) = (sa, se, sk)"
    by (cases "levinson_spec r (nat order)")
  with True show ?thesis by (simp add: levinson_1d_spec)
next
  case False
  then show ?thesis by (auto simp: levinson_1d_def Let_def)
qed





text \<open>
  C6. For every nonempty real frame, the autocorrelation computed by \<^verbatim>\<open>acorr_lpc\<close>
  (zero-padding to the power-of-two length, forward transform, squared magnitude, inverse
  transform, real part, truncation, division by the frame length) equals, lag for lag,
  the direct time-domain biased autocorrelation of the same frame. The lags are
  \<open>0..L\<close> for a frame of \<open>L \<ge> 2\<close> samples, and the single lag 0 for a frame of one sample.
\<close>

theorem acorr_lpc_eq_direct:
  assumes "x \<noteq> []"
  shows "acorr_lpc x = map (acorr_direct x) [0..<length (acorr_lpc x)]
         \<and> length (acorr_lpc x) = (if length x = 1 then 1 else length x + 1)"
proof
  show "acorr_lpc x = map (acorr_direct x) [0..<length (acorr_lpc x)]"
    by (rule nth_equalityI) (simp_all add: acorr_lpc_nth[OF assms])
next
  have "length x \<noteq> 0" using assms by simp
  then have "length x = 1 \<or> 2 \<le> length x" by linarith
  then show "length (acorr_lpc x) = (if length x = 1 then 1 else length x + 1)"
    by (auto simp: acorr_lpc_single length_acorr_lpc)
qed

text \<open>The frame \<open>[1, 2, 3, 4]\<close>.\<close>

theorem acorr_lpc_eq_direct_witness:
  "acorr_lpc [1, 2, 3, 4] = [30 / 4, 20 / 4, 11 / 4, 4 / 4, 0]"
proof -
  have ne: "[1, 2, 3, 4] \<noteq> ([] :: real list)" by simp
  note c = acorr_lpc_eq_direct[OF ne]
  from c have e: "acorr_lpc [1, 2, 3, 4] = map (acorr_direct [1, 2, 3, 4]) [0..<length (acorr_lpc [1, 2, 3, 4])]"
    by (rule conjunct1)
  from c have l: "length (acorr_lpc [1, 2, 3, 4]) = 5" by simp
  from e have "acorr_lpc [1, 2, 3, 4] = map (acorr_direct [1, 2, 3, 4]) [0..<5]"
    by (simp only: l)
  also have "\<dots> = [30 / 4, 20 / 4, 11 / 4, 4 / 4, 0]"
    by (simp add: acorr_direct_def upt_rec numeral_eq_Suc lessThan_Suc)
  finally show ?thesis .
qed

text \<open>
  C3, as stated: the estimator returns \<open>maxlag + 1\<close> entries, \<open>maxlag\<close> being the desired
  LPC order. \<^verbatim>\<open>acorr_lpc\<close> takes no order: its \<open>maxlag\<close> is the frame length. A frame of
  four samples analysed with LPC order 2 gets five entries, not three; and a frame of one
  sample gets one entry, not two, since the transform then has a single point.
\<close>

theorem acorr_lpc_length_counterexample:
  "length (acorr_lpc [1, 2, 3, 4]) \<noteq> 2 + 1 \<and> length (acorr_lpc [1]) \<noteq> 1 + 1"
  by (simp add: length_acorr_lpc acorr_lpc_single)

text \<open>
  C3, amended: for every real frame of \<open>L \<ge> 2\<close> samples \<^verbatim>\<open>acorr_lpc\<close> returns exactly
  \<open>L + 1\<close> entries, one for each lag \<open>0..L\<close> (\<open>L\<close> the frame length, whatever the LPC order),
  index 0 the zero-lag term, and the entry of lag \<open>m\<close> is the biased autocorrelation at
  lag \<open>m\<close>: the sum of the products of the samples \<open>m\<close> apart, divided by the frame length.
\<close>

theorem acorr_lpc_frame_lags:
  assumes "2 \<le> length x"
  shows "length (acorr_lpc x) = length x + 1
         \<and> (\<forall>m\<le>length x. acorr_lpc x ! m = acorr_direct x m)"
proof -
  have "x \<noteq> []" using assms by auto
  then show ?thesis using assms by (simp add: length_acorr_lpc acorr_lpc_nth)
qed

text \<open>The frame \<open>[3, 4]\<close>.\<close>

theorem acorr_lpc_frame_lags_witness:
  "length (acorr_lpc [3, 4]) = 3 \<and> acorr_lpc [3, 4] ! 0 = 25 / 2 \<and> acorr_lpc [3, 4] ! 1 = 6
   \<and> acorr_lpc [3, 4] ! 2 = 0"
proof -
  from acorr_lpc_frame_lags[of "[3, 4]"]
  have l: "length (acorr_lpc [3, 4]) = 3"
    and h: "\<And>m. m \<le> 2 \<Longrightarrow> acorr_lpc [3, 4] ! m = acorr_direct [3, 4] m" by simp_all
  show ?thesis
    using l h[of 0] h[of 1] h[of 2]
    by (simp add: acorr_direct_def numeral_eq_Suc lessThan_Suc)
qed

subsection \<open>The frames of process\<close>

lemma zip_map_same: "zip (map f xs) (map g xs) = map (\<lambda>x. (f x, g x)) xs"
  by (induction xs) auto

lemma candidates_map:
  "candidates new_sr rts0 =
     map (\<lambda>i. (root_frq new_sr (retained rts0 ! i), root_bw new_sr (retained rts0 ! i)))
       (argsort (map (root_frq new_sr) (retained rts0)))"
proof -
  have s: "set (argsort (map (root_frq new_sr) (retained rts0))) = {0..<length (retained rts0)}"
    by (simp add: argsort_def)
  show ?thesis
    unfolding candidates_def Let_def zip_map_same
    by (rule map_cong[OF refl]) (use s in auto)
qed

lemma mset_argsort: "mset (argsort xs) = mset [0..<length xs]"
  by (simp add: argsort_def)

lemma mset_candidates:
  "mset (candidates new_sr rts0) =
     image_mset (\<lambda>r. (root_frq new_sr r, root_bw new_sr r)) (mset (retained rts0))"
proof -
  let ?h = "\<lambda>i. (root_frq new_sr (retained rts0 ! i), root_bw new_sr (retained rts0 ! i))"
  have "mset (candidates new_sr rts0)
          = image_mset ?h (mset (argsort (map (root_frq new_sr) (retained rts0))))"
    by (simp add: candidates_map)
  also have "\<dots> = image_mset ?h (mset [0..<length (retained rts0)])"
    by (simp only: mset_argsort length_map)
  also have "\<dots> = mset (map ?h [0..<length (retained rts0)])" by (simp only: mset_map)
  also have "map ?h [0..<length (retained rts0)]
               = map (\<lambda>r. (root_frq new_sr r, root_bw new_sr r)) (retained rts0)"
    by (rule nth_equalityI) simp_all
  finally show ?thesis by simp
qed

lemma sorted_candidates: "sorted (map fst (candidates new_sr rts0))"
proof -
  let ?f = "map (root_frq new_sr) (retained rts0)"
  have "map fst (candidates new_sr rts0) = map (\<lambda>i. ?f ! i) (argsort ?f)"
    unfolding candidates_def Let_def by (simp add: retained_def)
  then show ?thesis by (simp add: argsort_def)
qed

text \<open>
  C2, as stated: the bandwidth of a retained root \<open>r\<close> is \<open>-(workingRate / (2\<pi>)) ln |r|\<close>.
  Line 264 has the factor \<^verbatim>\<open>-1/2\<close>: for the single root \<open>i/2\<close> at the working rate 10000
  the candidate's bandwidth is half of what the claim says.
\<close>

theorem candidates_half_bandwidth_counterexample:
  "candidates 10000 [Complex 0 (1 / 2)]
     \<noteq> [(arctan2 (1 / 2) 0 * (10000 / (2 * pi)), - (10000 / (2 * pi)) * ln (cmod (Complex 0 (1 / 2))))]"
proof -
  have c: "cmod (Complex 0 (1 / 2)) = 1 / 2"
    by (simp add: cmod_def power2_eq_square real_sqrt_divide)
  have l: "ln (1 / 2 :: real) = - ln 2" by (simp add: ln_div)
  have "ln (2::real) > 0" by simp
  then show ?thesis
    by (simp add: candidates_def retained_def argsort_def root_frq_def root_bw_def c l)
qed

text \<open>
  C2, amended: in every frame the candidates are, as a multiset, the retained roots (those
  with non-negative imaginary part) each converted to the frequency
  \<open>atan2(Im r, Re r) * workingRate / (2\<pi>)\<close> and the bandwidth
  \<open>-(1/2) * (workingRate / (2\<pi>)) * ln |r|\<close>, and they are listed in ascending order of
  frequency.
\<close>

theorem candidates_sorted_conversion:
  "mset (candidates new_sr rts) =
     image_mset (\<lambda>r. (arctan2 (Im r) (Re r) * (new_sr / (2 * pi)),
                       - 1 / 2 * (new_sr / (2 * pi)) * ln (cmod r)))
       (mset (filter (\<lambda>r. Im r \<ge> 0) rts))
   \<and> sorted (map fst (candidates new_sr rts))"
  using mset_candidates[of new_sr rts] sorted_candidates[of new_sr rts]
  by (simp add: root_frq_def root_bw_def retained_def)
















subsection \<open>The projection and the short signal\<close>

text \<open>On a track that is not empty and whose frames have one length, \<^verbatim>\<open>to_array\<close>
  returns one row per frame in ascending order of the time keys, the row of a key holding
  the frequencies (or the bandwidths) of its frame; a missing entry becomes NaN.\<close>

lemma to_array_rows_formant:
  assumes "\<And>t. t \<in> set ts \<Longrightarrow> \<exists>fr. map_of d t = Some fr \<and> length fr = fl"
    and "i + length ts \<le> length out" and "v = ''formant'' \<or> v = ''bandwidth''"
  shows "to_array_rows d v fl (enumerate i ts) out =
           Inr (take i out
                @ map (\<lambda>t. map (if v = ''formant'' then fst else snd) (the (map_of d t))) ts
                @ drop (i + length ts) out)"
  using assms(1,2)
proof (induction ts arbitrary: i out)
  case Nil
  then show ?case by simp
next
  case (Cons t ts)
  from Cons.prems(1)[of t] obtain fr where fr: "map_of d t = Some fr" "length fr = fl" by auto
  let ?sel = "if v = ''formant'' then fst else snd :: real option \<times> real option \<Rightarrow> real option"
  let ?out = "out[i := map ?sel fr]"
  have step: "to_array_rows d v fl (enumerate i (t # ts)) out
                = to_array_rows d v fl (enumerate (Suc i) ts) ?out"
    using fr assms(3) by (auto simp: assign_row_def)
  have "to_array_rows d v fl (enumerate (Suc i) ts) ?out =
          Inr (take (Suc i) ?out @ map (\<lambda>t. map ?sel (the (map_of d t))) ts
               @ drop (Suc i + length ts) ?out)"
    by (rule Cons.IH) (use Cons.prems in auto)
  moreover have "take (Suc i) ?out = take i out @ [map ?sel fr]"
    using Cons.prems(2) by (simp add: take_Suc_conv_app_nth)
  moreover have "drop (Suc i + length ts) ?out = drop (i + length (t # ts)) out"
    by simp
  ultimately show ?case using step fr by simp
qed

lemma to_array_nonempty:
  assumes "rep self \<noteq> []" "\<And>t fr. (t, fr) \<in> set (rep self) \<Longrightarrow> length fr = fl"
    and "v = ''formant'' \<or> v = ''bandwidth''"
  shows "to_array self v =
           Inr (map (\<lambda>t. map (if v = ''formant'' then fst else snd) (the (map_of (rep self) t)))
                  (sort (map fst (rep self))))"
proof -
  obtain t0 ex rest where d: "rep self = (t0, ex) # rest" using assms(1) by (cases "rep self") auto
  have fl: "length ex = fl" using assms(2)[of t0 ex] d by simp
  let ?times = "sort (map fst (rep self))"
  have keys: "\<And>t. t \<in> set ?times \<Longrightarrow> \<exists>fr. map_of (rep self) t = Some fr \<and> length fr = fl"
  proof -
    fix t assume "t \<in> set ?times"
    then have "t \<in> fst ` set (rep self)" by simp
    then obtain fr where "map_of (rep self) t = Some fr"
      by (metis map_of_eq_None_iff not_Some_eq)
    moreover from this have "(t, fr) \<in> set (rep self)" by (rule map_of_SomeD)
    ultimately show "\<exists>fr. map_of (rep self) t = Some fr \<and> length fr = fl"
      using assms(2) by blast
  qed
  have "to_array self v =
          to_array_rows (rep self) v fl (enumerate 0 ?times)
            (replicate (length ?times) (replicate fl (Some 0)))"
    using fl by (simp add: to_array_def Let_def d)
  also have "\<dots> = Inr (take 0 (replicate (length ?times) (replicate fl (Some 0)))
        @ map (\<lambda>t. map (if v = ''formant'' then fst else snd) (the (map_of (rep self) t))) ?times
        @ drop (0 + length ?times) (replicate (length ?times) (replicate fl (Some 0))))"
    by (rule to_array_rows_formant[OF keys _ assms(3)]) simp_all
  finally show ?thesis by simp
qed

text \<open>
  C8. The projection should return a rectangular array with one row per frame, also for
  an empty track (no rows). \<^verbatim>\<open>to_array\<close> reads the first frame with
  \<^verbatim>\<open>next(iter(self._rep.values()))\<close> before it looks at the keys: on the empty track
  that a signal of three samples yields, both channels raise \<^verbatim>\<open>StopIteration\<close>.
\<close>

theorem to_array_empty_track:
  "\<exists>s. LpcFormants_init roots [0, 0, 0] fp 5000 2 (25 / 1000) (1 / 100) None ''gaussian'' = Inr s
       \<and> rep s = []
       \<and> to_array s ''formant'' = Inl StopIteration
       \<and> to_array s ''bandwidth'' = Inl StopIteration"
  by (simp add: LpcFormants_init_def LpcFormants_new_def Formants_init_def process_def Let_def
      py_int_def arange_def to_array_def)

lemma length_analysis_window: "length (analysis_window self nperseg) = nat nperseg"
  by (auto simp: analysis_window_def gaussian_def hanning_def py_slice_def slice_bound_def)

text \<open>
  C9. A signal shorter than the analysis window should give an empty track and no error.
  The frame centres start at \<^verbatim>\<open>int(nperseg/2)\<close> and a frame is cut as
  \<^verbatim>\<open>proc[c - int(nperseg/2) : c + int(nperseg/2)]\<close>: with an odd window of 101 samples
  (window length 0.005075 s, doubled, at 10 kHz) a signal of 100 samples has the frame
  centre 50, the frame has 100 samples and the window 101, and the product raises.
\<close>

theorem odd_window_short_signal:
  "LpcFormants_init roots (replicate 100 0) fp 5000 2 (203 / 40000) (1 / 100) None ''gaussian''
     = Inl (ValueError ''operands could not be broadcast together'')"
proof -
  define cfg where "cfg = LpcFormants_new fp 5000 2 (203 / 40000) (1 / 100) None ''gaussian''"
  have sel: "freq_lims cfg = (0, 5000)" "num_formants cfg = 2" "win_len cfg = 203 / 20000"
    "time_step cfg = 1 / 100" "cfg\<lparr>rep := []\<rparr> = cfg"
    by (simp_all add: cfg_def LpcFormants_new_def Formants_init_def)
  have mul: "np_multiply (py_slice (replicate 100 0) 0 100) (analysis_window cfg 101)
               = Inl (ValueError ''operands could not be broadcast together'')"
    by (simp add: np_multiply_def py_slice_def slice_bound_def length_analysis_window)
  have "process roots (replicate 100 0) cfg = Inl (ValueError ''operands could not be broadcast together'')"
    by (simp add: process_def Let_def py_int_def arange_def sel mul)
  then show ?thesis by (simp add: LpcFormants_init_def cfg_def)
qed

text \<open>With an even window the track of a shorter signal is empty.\<close>

lemma process_short_signal_even:
  assumes "snd (freq_lims self) \<noteq> 0" "0 \<le> num_formants self"
    and "py_int (win_len self * (2 * snd (freq_lims self))) = 2 * h"
    and "0 < py_int (time_step self * (2 * snd (freq_lims self)))"
    and "int (length proc) < 2 * h"
  shows "process roots proc self = Inr (self\<lparr>rep := []\<rparr>)"
proof -
  have h: "py_int (real_of_int (2 * h) / 2) = h" "py_int (real_of_int h) = h"
    by (simp_all add: py_int_def)
  let ?step = "py_int (time_step self * (2 * snd (freq_lims self)))"
  have "(h - (int (length proc) - h + 1)) div ?step \<ge> 0"
    using assms(4,5) by (intro pos_imp_zdiv_nonneg_iff[THEN iffD2]) auto
  then have "arange h (int (length proc) - h + 1) ?step = Inr []"
    using assms(4) by (simp add: arange_def)
  then show ?thesis
    using assms(1,2) by (simp add: process_def Let_def assms(3) h)
qed

subsection \<open>The caller's arrays\<close>

lemma st_get_new [simp]:
  "st_get (s @ [a, t, k]) (length s) j = a ! j"
  "st_get (s @ [a, t, k]) (Suc (length s)) j = t ! j"
  "st_get (s @ [a, t, k]) (Suc (Suc (length s))) j = k ! j"
  by (simp_all add: st_get_def nth_append)

lemma st_get_old [simp]: "r < length s \<Longrightarrow> st_get (s @ xs) r j = s ! r ! j"
  by (simp add: st_get_def nth_append)

lemma st_set_new [simp]:
  "st_set (s @ [a, t, k]) (length s) j v = s @ [a[j := v], t, k]"
  "st_set (s @ [a, t, k]) (Suc (length s)) j v = s @ [a, t[j := v], k]"
  "st_set (s @ [a, t, k]) (Suc (Suc (length s))) j v = s @ [a, t, k[j := v]]"
  by (simp_all add: st_set_def nth_append list_update_append)

lemma copy_loop_st:
  "fold (\<lambda>j S. st_set S (Suc (length s)) j (st_get S (length s) j)) js (s @ [a, t, k])
     = s @ [a, fold (\<lambda>j t. t[j := a ! j]) js t, k]"
  by (induction js arbitrary: t) simp_all

lemma update_loop_st:
  "fold (\<lambda>j S. st_set S (length s) j
           (st_get S (length s) j
              + st_get S (Suc (Suc (length s))) c * cnj (st_get S (Suc (length s)) (i - j))))
        js (s @ [a, t, k])
     = s @ [fold (\<lambda>j a. a[j := a ! j + k ! c * cnj (t ! (i - j))]) js a, t, k]"
  by (induction js arbitrary: a) simp_all

lemma levinson_body_st_sim:
  assumes "r < length s"
  shows "levinson_body_st r (length s) (Suc (length s)) (Suc (Suc (length s))) order i
           (s @ [a, t, k], e)
         = (case levinson_body (s ! r) order i (a, t, k, e) of
              (a', t', k', e') \<Rightarrow> (s @ [a', t', k'], e'))"
  using assms
  by (simp add: levinson_body_st_def levinson_body_def Let_def copy_loop_st update_loop_st)

lemma levinson_fold_st_sim:
  assumes "r < length s"
  shows "fold (levinson_body_st r (length s) (Suc (length s)) (Suc (Suc (length s))) order) js
           (s @ [a, t, k], e)
         = (case fold (levinson_body (s ! r) order) js (a, t, k, e) of
              (a', t', k', e') \<Rightarrow> (s @ [a', t', k'], e'))"
proof (induction js arbitrary: a t k e)
  case Nil
  then show ?case by simp
next
  case (Cons j js)
  obtain a1 t1 k1 e1 where b: "levinson_body (s ! r) order j (a, t, k, e) = (a1, t1, k1, e1)"
    by (cases "levinson_body (s ! r) order j (a, t, k, e)")
  show ?case
    by (simp add: levinson_body_st_sim[OF assms] b Cons.IH)
qed

text \<open>The store version returns what \<^verbatim>\<open>levinson_1d\<close> returns, in three new arrays.\<close>

lemma levinson_1d_st_refines:
  assumes "r < length s"
  shows "(\<forall>err. levinson_1d u (s ! r) order = Inl err \<longrightarrow> levinson_1d_st u s r order = Inl err)
       \<and> (\<forall>a e k. levinson_1d u (s ! r) order = Inr (a, e, k) \<longrightarrow>
            (\<exists>t. levinson_1d_st u s r order =
                    Inr ((length s, e, Suc (Suc (length s))), s @ [a, t, k])))"
proof (cases "s ! r \<noteq> [] \<and> order \<le> int (length (s ! r)) - 1 \<and> Im (s ! r ! 0) = 0
              \<and> s ! r ! 0 \<noteq> 0 \<and> 0 \<le> order")
  case False
  then show ?thesis
    by (auto simp: levinson_1d_st_def levinson_1d_def Let_def st_get_def)
next
  case True
  define n where "n = nat order"
  obtain a t k e where f: "fold (levinson_body (s ! r) n) [1..<n + 1]
      ((np_empty u (n + 1))[0 := 1], np_empty u (n + 1), np_empty u n, s ! r ! 0) = (a, t, k, e)"
    by (cases "fold (levinson_body (s ! r) n) [1..<n + 1]
      ((np_empty u (n + 1))[0 := 1], np_empty u (n + 1), np_empty u n, s ! r ! 0)")
  have pure: "levinson_1d u (s ! r) order = Inr (a, e, k)"
    using True f by (simp add: levinson_1d_def Let_def n_def del: upt_Suc)
  have "fold (levinson_body_st r (length s) (Suc (length s)) (Suc (Suc (length s))) n) [1..<n + 1]
          (s @ [(np_empty u (n + 1))[0 := 1], np_empty u (n + 1), np_empty u n], s ! r ! 0)
        = (s @ [a, t, k], e)"
    by (simp only: levinson_fold_st_sim[OF assms] f prod.case)
  then have "levinson_1d_st u s r order = Inr ((length s, e, Suc (Suc (length s))), s @ [a, t, k])"
    using True assms
    by (simp add: levinson_1d_st_def Let_def st_alloc_def n_def st_get_def[of s] del: upt_Suc)
  with pure show ?thesis by auto
qed

lemma py_slice_map: "py_slice (map f xs) lo hi = map f (py_slice xs lo hi)"
  by (simp add: py_slice_def Let_def take_map drop_map)

lemma acorr_lpc_st_result:
  assumes "list_all (\<lambda>z. Im z = 0) (s ! x)" "x < length s"
  shows "\<exists>f p m i. acorr_lpc_st s x =
           Inr (length s + 4, s @ [f, p, m, i, map complex_of_real (acorr_lpc (map Re (s ! x)))])"
proof -
  define L where "L = length (s ! x)"
  define nfft :: nat where "nfft = 2 ^ nextpow2 (2 * int L - 1)"
  define F where "F = fft (s ! x) nfft"
  define P where "P = map (\<lambda>z. z\<^sup>2) F"
  define M where "M = map (\<lambda>z. complex_of_real (cmod z)) P"
  define I where "I = ifft M"
  define RES where "RES = map (\<lambda>v. v / of_nat L)
                            (py_slice (map (\<lambda>z. complex_of_real (Re z)) I) 0 (int L + 1))"
  have st: "acorr_lpc_st s x = Inr (length s + 4, s @ [F, P, M, I, RES])"
    using assms
    by (simp add: acorr_lpc_st_def Let_def st_alloc_def nth_append
        L_def nfft_def F_def P_def M_def I_def RES_def)
  have x: "map (\<lambda>z. complex_of_real (Re z)) (s ! x) = s ! x"
    using assms(1) by (auto simp: list_all_iff complex_eq_iff intro!: nth_equalityI)
  have M': "M = map (\<lambda>z. complex_of_real (cmod (z\<^sup>2))) F"
    by (simp add: M_def P_def)
  have "map complex_of_real (acorr_lpc (map Re (s ! x)))
          = map (\<lambda>v. complex_of_real (Re v) / of_nat L) (py_slice I 0 (int L + 1))"
    by (simp add: acorr_lpc_def acorr_last_axis_def Let_def py_slice_map x o_def
        I_def M' F_def nfft_def L_def)
  also have "\<dots> = RES" by (simp add: RES_def py_slice_map o_def)
  finally show ?thesis using st by blast
qed

text \<open>
  C10. \<^verbatim>\<open>acorr_lpc\<close> and \<^verbatim>\<open>levinson_1d\<close> do not modify their input: when a call
  returns, every array that existed before the call, the frame or the autocorrelation
  vector passed in among them, is unchanged, and the arrays returned (the autocorrelation;
  the coefficients and the reflection coefficients) are new arrays of the store.
\<close>

theorem calls_keep_their_inputs:
  assumes "x < length s"
  shows "(\<forall>res s'. acorr_lpc_st s x = Inr (res, s') \<longrightarrow>
            take (length s) s' = s \<and> s' ! x = s ! x \<and> length s \<le> res \<and> res < length s')
       \<and> (\<forall>a e k s'. levinson_1d_st u s x order = Inr ((a, e, k), s') \<longrightarrow>
            take (length s) s' = s \<and> s' ! x = s ! x
            \<and> length s \<le> a \<and> a < length s' \<and> length s \<le> k \<and> k < length s' \<and> a \<noteq> k)"
proof (intro conjI allI impI)
  fix res s' assume r: "acorr_lpc_st s x = Inr (res, s')"
  then have "list_all (\<lambda>z. Im z = 0) (s ! x)"
    by (auto simp: acorr_lpc_st_def split: if_splits)
  from acorr_lpc_st_result[OF this assms] r obtain f p m i where
    "res = length s + 4" "s' = s @ [f, p, m, i, map complex_of_real (acorr_lpc (map Re (s ! x)))]"
    by auto
  then show "take (length s) s' = s" "s' ! x = s ! x" "length s \<le> res" "res < length s'"
    using assms by (simp_all add: nth_append)
next
  fix a e k s' assume r: "levinson_1d_st u s x order = Inr ((a, e, k), s')"
  have "\<exists>a' k' t. levinson_1d u (s ! x) order = Inr (a', e, k') \<and> a = length s
          \<and> k = Suc (Suc (length s)) \<and> s' = s @ [a', t, k']"
  proof (cases "levinson_1d u (s ! x) order")
    case (Inl err)
    with levinson_1d_st_refines[OF assms, of u order] r show ?thesis by simp
  next
    case (Inr res)
    obtain a' e' k' where "res = (a', e', k')" by (cases res)
    with Inr levinson_1d_st_refines[OF assms, of u order] r show ?thesis by auto
  qed
  then obtain a' k' t where "a = length s" "k = Suc (Suc (length s))" "s' = s @ [a', t, k']"
    by blast
  then show "take (length s) s' = s" "s' ! x = s ! x" "length s \<le> a" "a < length s'"
    "length s \<le> k" "k < length s'" "a \<noteq> k"
    using assms by (simp_all add: nth_append)
qed

text \<open>Both calls on a store that holds the one array \<open>[2, 1]\<close>.\<close>

theorem calls_keep_their_inputs_witness:
  "(\<exists>res s'. acorr_lpc_st [[2, 1]] 0 = Inr (res, s') \<and> s' ! 0 = [2, 1] \<and> 1 \<le> res)
   \<and> (\<exists>a e k s'. levinson_1d_st (\<lambda>_. 0) [[2, 1]] 0 1 = Inr ((a, e, k), s')
         \<and> s' ! 0 = [2, 1] \<and> s' ! a = [1, - 1 / 2] \<and> e = 3 / 2 \<and> s' ! k = [- 1 / 2])"
proof -
  have x: "(0::nat) < length [[2, 1 :: complex]]" by simp
  note t = calls_keep_their_inputs[OF x, of "\<lambda>_. 0" 1]
  have "list_all (\<lambda>z. Im z = 0) ([[2, 1 :: complex]] ! 0)" by simp
  from acorr_lpc_st_result[OF this x] obtain res s' where
    ac: "acorr_lpc_st [[2, 1]] 0 = Inr (res, s')" by blast
  with t have "s' ! 0 = [2, 1]" "1 \<le> res" by auto
  with ac have A: "\<exists>res s'. acorr_lpc_st [[2, 1]] 0 = Inr (res, s') \<and> s' ! 0 = [2, 1] \<and> 1 \<le> res"
    by blast
  have pure: "levinson_1d (\<lambda>_. 0) ([[2, 1]] ! 0) 1 = Inr ([1, - 1 / 2], 3 / 2, [- 1 / 2])"
    using levinson_1d_spec[of "[2, 1]" 1 _ _ _ "\<lambda>_. 0"] by (auto simp: Let_def)
  with levinson_1d_st_refines[OF x, of "\<lambda>_. 0" 1]
  have "\<exists>t. levinson_1d_st (\<lambda>_. 0) [[2, 1]] 0 1 =
          Inr ((length [[2, 1 :: complex]], 3 / 2, Suc (Suc (length [[2, 1 :: complex]]))),
               [[2, 1]] @ [[1, - 1 / 2], t, [- 1 / 2]])"
    by blast
  then obtain tt where
    lv: "levinson_1d_st (\<lambda>_. 0) [[2, 1]] 0 1 =
           Inr ((Suc 0, 3 / 2, Suc (Suc (Suc 0))), [[2, 1], [1, - 1 / 2], tt, [- 1 / 2]])"
    by auto
  with t have "[[2, 1], [1, - 1 / 2], tt, [- 1 / 2]] ! 0 = [2, 1 :: complex]" by simp
  with lv have B: "\<exists>a e k s'. levinson_1d_st (\<lambda>_. 0) [[2, 1]] 0 1 = Inr ((a, e, k), s')
         \<and> s' ! 0 = [2, 1] \<and> s' ! a = [1, - 1 / 2] \<and> e = 3 / 2 \<and> s' ! k = [- 1 / 2]"
    by (intro exI[of _ "Suc 0"] exI[of _ "3 / 2"] exI[of _ "Suc (Suc (Suc 0))"]
        exI[of _ "[[2, 1], [1, - 1 / 2], tt, [- 1 / 2]]"]) simp
  from A B show ?thesis by blast
qed

subsection \<open>The window shape\<close>

text \<open>
  C4. An extractor constructed with the window shape \<^verbatim>\<open>hann\<close> should apply the Hann
  window and use the configured window length undoubled. \<^verbatim>\<open>LpcFormants.__init__\<close>
  passes the literal \<^verbatim>\<open>'gaussian'\<close> to the base constructor instead of its argument:
  for \<^verbatim>\<open>LpcFormants(fp, 5000, 2, 0.025, 0.01, window_shape='hann')\<close> the object that
  \<^verbatim>\<open>process\<close> works on has the shape \<^verbatim>\<open>gaussian\<close>, the doubled window length 0.05, and the
  Gaussian window is the one applied: the extraction is the one of a \<^verbatim>\<open>gaussian\<close>
  extractor. The base constructor alone, given \<^verbatim>\<open>hann\<close>, keeps the length 0.025.
\<close>

theorem LpcFormants_hann_is_gaussian:
  "window_shape (LpcFormants_new fp 5000 2 (25 / 1000) (1 / 100) None ''hann'') = ''gaussian''
   \<and> win_len (LpcFormants_new fp 5000 2 (25 / 1000) (1 / 100) None ''hann'') = 5 / 100
   \<and> analysis_window (LpcFormants_new fp 5000 2 (25 / 1000) (1 / 100) None ''hann'') 500
       = py_slice (gaussian 502 (0.45 * 499 / 2)) 1 501
   \<and> LpcFormants_init roots proc fp 5000 2 (25 / 1000) (1 / 100) None ''hann''
       = LpcFormants_init roots proc fp 5000 2 (25 / 1000) (1 / 100) None ''gaussian''
   \<and> win_len (Formants_init fp 5000 2 (25 / 1000) (1 / 100) None ''hann'') = 25 / 1000"
  by (simp add: LpcFormants_init_def LpcFormants_new_def Formants_init_def analysis_window_def)

end
